theory Spec2Isabelle
  imports Main
begin

section \<open>Data model of the lineage walker (ImageLineage.tsx)\<close>

text \<open>
  Modelled from the spec: the \<^verbatim>\<open>ProofRecord\<close> interface is imported from
  \<^verbatim>\<open>@/lib/database-service\<close>, whose declaration is not part of the sources at hand.
  The fields are the ones the component reads or \<^verbatim>\<open>createOrphanProof\<close> writes; the
  optional ones (\<^verbatim>\<open>undefined\<close> in TypeScript) are options. The field \<^verbatim>\<open>id\<close> is
  called \<open>proofId\<close> and the field \<^verbatim>\<open>proof\<close> is called \<open>proofData\<close>.
\<close>

record ProofRecord =
  proofId :: "string option"
  imageName :: "string option"
  originalImageHash :: "string option"
  transformedImageHash :: "string option"
  proofData :: string
  publicValues :: string
  ipfsMetadataUri :: string
  ipfsImageUri :: "string option"
  timestamp :: "string option"

text \<open>
  \<^verbatim>\<open>interface LineageNode { proof: ProofRecord; level: number; isOrphan?: boolean }\<close>.
  The field \<^verbatim>\<open>proof\<close> is called \<open>node_proof\<close>. A node pushed without \<^verbatim>\<open>isOrphan\<close>
  has \<open>isOrphan = None\<close>.
\<close>

record LineageNode =
  node_proof :: ProofRecord
  level :: nat
  isOrphan :: "bool option"

text \<open>
  What one call \<^verbatim>\<open>await findProofsByHash(hash)\<close> can do: the promise rejects, or it
  resolves to \<^verbatim>\<open>{ success, data }\<close> where \<^verbatim>\<open>data\<close> may be missing. The lookup service
  itself is a parameter of the walk, a function from the hash to this outcome.
\<close>

datatype LookupOutcome = Throws | Returns bool "ProofRecord list option"

datatype failure = LookupRejected

text \<open>JavaScript truthiness of a \<^verbatim>\<open>string | undefined\<close>: neither undefined nor empty.\<close>

definition truthy :: "string option \<Rightarrow> bool" where
  "truthy h = (case h of None \<Rightarrow> False | Some s \<Rightarrow> s \<noteq> [])"

text \<open>\<^verbatim>\<open>createOrphanProof(hash, name)\<close>, lines 147-157.\<close>

definition createOrphanProof :: "string \<Rightarrow> string \<Rightarrow> ProofRecord" where
  "createOrphanProof hash name =
     \<lparr> proofId = None,
       imageName = Some name,
       originalImageHash = Some hash,
       transformedImageHash = None,
       proofData = [],
       publicValues = [],
       ipfsMetadataUri = [],
       ipfsImageUri = None,
       timestamp = Some [] \<rparr>"

section \<open>The walk\<close>

text \<open>
  The variables of \<^verbatim>\<open>traverseLineage\<close> while its loop runs: the two mutable arguments,
  the three locals (\<open>curLevel\<close> is the local \<^verbatim>\<open>level\<close>), and the trace of the hashes
  that \<^verbatim>\<open>findProofsByHash\<close> has been called with so far.
\<close>

record WalkState =
  lineageNodes :: "LineageNode list"
  visitedHashes :: "string set"
  currentHash :: string
  curLevel :: nat
  foundParent :: bool
  lookups :: "string list"

datatype Step = Thrown | Break WalkState | Continue WalkState

definition push :: "LineageNode \<Rightarrow> WalkState \<Rightarrow> WalkState" where
  "push n s = s\<lparr>lineageNodes := lineageNodes s @ [n]\<rparr>"

definition add_if_truthy :: "string option \<Rightarrow> string set \<Rightarrow> string set" where
  "add_if_truthy h V = (case h of None \<Rightarrow> V | Some t \<Rightarrow> if t \<noteq> [] then insert t V else V)"

text \<open>
  One pass through the body of \<^verbatim>\<open>while (currentHash)\<close>, lines 74-126, in the
  order of the source's branches.
\<close>

definition loop_body :: "(string \<Rightarrow> LookupOutcome) \<Rightarrow> WalkState \<Rightarrow> Step" where
  "loop_body findProofsByHash s0 =
     (let s = s0\<lparr>foundParent := False, lookups := lookups s0 @ [currentHash s0]\<rparr> in
      case findProofsByHash (currentHash s) of
        Throws \<Rightarrow> Thrown
      | Returns success data \<Rightarrow>
          (case (if success then data else None) of
             Some (d # ds) \<Rightarrow>
               (case List.find (\<lambda>p. transformedImageHash p = Some (currentHash s)) (d # ds) of
                  None \<Rightarrow> Break s
                | Some parentProof \<Rightarrow>
                    (case originalImageHash parentProof of
                       None \<Rightarrow> Break s
                     | Some oh \<Rightarrow>
                         if oh \<noteq> [] \<and> oh \<notin> visitedHashes s then
                           Continue
                             ((push \<lparr>node_proof = parentProof, level = curLevel s, isOrphan = None\<rparr> s)
                                \<lparr>foundParent := True,
                                 visitedHashes :=
                                   add_if_truthy (transformedImageHash parentProof)
                                     (insert oh (visitedHashes s)),
                                 currentHash := oh,
                                 curLevel := curLevel s + 1\<rparr>)
                         else if oh \<noteq> [] then
                           Break
                             ((push \<lparr>node_proof = parentProof, level = curLevel s,
                                     isOrphan = Some True\<rparr> s)
                                \<lparr>foundParent := True\<rparr>)
                         else Break s))
           | _ \<Rightarrow>
               if currentHash s \<noteq> [] then
                 Break
                   ((push \<lparr>node_proof = createOrphanProof (currentHash s) ''Private Image'',
                           level = curLevel s, isOrphan = Some True\<rparr> s)
                      \<lparr>foundParent := True\<rparr>)
               else Break s))"

text \<open>
  The loop itself. Nothing bounds the number of passes, so the loop is a partial
  function: \<open>None\<close> is the walk that never returns, \<open>Some (Inl LookupRejected)\<close> the
  walk whose lookup threw, \<open>Some (Inr s)\<close> the walk that left the loop in state \<open>s\<close>.
\<close>

partial_function (option) traverse_loop ::
  "(string \<Rightarrow> LookupOutcome) \<Rightarrow> WalkState \<Rightarrow> (failure + WalkState) option" where
  "traverse_loop findProofsByHash s =
     (if currentHash s = [] then Some (Inr s)
      else case loop_body findProofsByHash s of
             Thrown \<Rightarrow> Some (Inl LookupRejected)
           | Break s' \<Rightarrow> Some (Inr s')
           | Continue s' \<Rightarrow> traverse_loop findProofsByHash s')"

text \<open>The placeholder for the parent of the last node, lines 131-141.\<close>

definition backfill :: "WalkState \<Rightarrow> WalkState" where
  "backfill s =
     (case lineageNodes s of
        [] \<Rightarrow> s
      | _ # _ \<Rightarrow>
          (let lastNode = last (lineageNodes s) in
           case originalImageHash (node_proof lastNode) of
             None \<Rightarrow> s
           | Some oh \<Rightarrow>
               if \<not> foundParent s \<and> oh \<noteq> [] then
                 push \<lparr>node_proof = createOrphanProof oh ''Unknown Parent Image'',
                       level = level lastNode + 1, isOrphan = Some True\<rparr> s
               else s))"

text \<open>
  \<^verbatim>\<open>traverseLineage(lineageNodes, visitedHashes, startHash)\<close>, lines 61-144. The result
  holds the returned \<^verbatim>\<open>foundParent\<close>, the two arguments as the call left them, and the
  trace of lookups.
\<close>

definition traverseLineage ::
  "(string \<Rightarrow> LookupOutcome) \<Rightarrow> LineageNode list \<Rightarrow> string set \<Rightarrow> string option
     \<Rightarrow> (failure + bool \<times> LineageNode list \<times> string set \<times> string list) option" where
  "traverseLineage findProofsByHash nodes visited startHash =
     (case startHash of
        None \<Rightarrow> Some (Inr (False, nodes, visited, []))
      | Some h \<Rightarrow>
          if h = [] then Some (Inr (False, nodes, visited, []))
          else
            (case traverse_loop findProofsByHash
                    \<lparr>lineageNodes = nodes, visitedHashes = visited, currentHash = h,
                     curLevel = 1, foundParent = False, lookups = []\<rparr> of
               None \<Rightarrow> None
             | Some (Inl e) \<Rightarrow> Some (Inl e)
             | Some (Inr s) \<Rightarrow>
                 (let s' = backfill s in
                  Some (Inr (foundParent s', lineageNodes s', visitedHashes s', lookups s')))))"

text \<open>
  The \<^verbatim>\<open>try\<close> block of \<^verbatim>\<open>fetchLineage\<close>, lines 28-43: the array that is handed to
  \<^verbatim>\<open>setLineage\<close> when nothing threw, with the trace of lookups.
\<close>

definition fetchLineage_try ::
  "(string \<Rightarrow> LookupOutcome) \<Rightarrow> ProofRecord \<Rightarrow> (failure + LineageNode list \<times> string list) option" where
  "fetchLineage_try findProofsByHash currentProof =
     (let lineageNodes0 = [\<lparr>node_proof = currentProof, level = 0, isOrphan = None\<rparr>];
          visited0 = add_if_truthy (transformedImageHash currentProof)
                       (add_if_truthy (originalImageHash currentProof) {}) in
      case traverseLineage findProofsByHash lineageNodes0 visited0
             (originalImageHash currentProof) of
        None \<Rightarrow> None
      | Some (Inl e) \<Rightarrow> Some (Inl e)
      | Some (Inr (found, nodes, visited, calls)) \<Rightarrow> Some (Inr (nodes, calls)))"

text \<open>
  The state of the hook \<^verbatim>\<open>useImageLineage\<close> and what one run of \<^verbatim>\<open>fetchLineage\<close>
  does to it, lines 23-52: \<^verbatim>\<open>setLineage\<close> is reached only when nothing threw.
\<close>

record HookState =
  lineage :: "LineageNode list"
  loading :: bool
  error :: "string option"

definition fetchLineage ::
  "(string \<Rightarrow> LookupOutcome) \<Rightarrow> ProofRecord \<Rightarrow> HookState \<Rightarrow> HookState option" where
  "fetchLineage findProofsByHash currentProof h0 =
     (let h = h0\<lparr>loading := True, error := None\<rparr> in
      case fetchLineage_try findProofsByHash currentProof of
        None \<Rightarrow> None
      | Some (Inl e) \<Rightarrow> Some (h\<lparr>error := Some ''Failed to load image lineage'', loading := False\<rparr>)
      | Some (Inr (nodes, calls)) \<Rightarrow> Some (h\<lparr>lineage := nodes, loading := False\<rparr>))"

section \<open>Notions used in the statements\<close>

text \<open>
  The hashes that a lookup service can ever return, in either hash field of a record of
  any answer. A service backed by a finite store has finitely many of them.
\<close>

definition returned_hashes :: "(string \<Rightarrow> LookupOutcome) \<Rightarrow> string set" where
  "returned_hashes findProofsByHash =
     {x. \<exists>h success d p. findProofsByHash h = Returns success (Some d) \<and> p \<in> set d \<and>
           (originalImageHash p = Some x \<or> transformedImageHash p = Some x)}"

text \<open>
  The state in which the loop is left by a \<^verbatim>\<open>break\<close> that pushed the node \<open>n\<close>:
  the lookup of this pass is in the trace and \<^verbatim>\<open>foundParent\<close> is set.
\<close>

abbreviation stopped_with :: "LineageNode \<Rightarrow> WalkState \<Rightarrow> WalkState" where
  "stopped_with n s \<equiv>
     s\<lparr>lineageNodes := lineageNodes s @ [n], foundParent := True,
       lookups := lookups s @ [currentHash s]\<rparr>"

section \<open>The invariant of the walk\<close>

text \<open>
  What holds of the loop variables each time the loop condition is tested, when the walk
  was started by \<^verbatim>\<open>fetchLineage\<close> on the proof \<open>S\<close>: every node pushed so far is a
  real record, its level is its position, its original hash is in the visited set, and
  the hash looked up next is the original hash of the last node.
\<close>

definition walk_inv :: "ProofRecord \<Rightarrow> WalkState \<Rightarrow> bool" where
  "walk_inv S s \<longleftrightarrow>
     currentHash s \<noteq> [] \<and>
     lineageNodes s \<noteq> [] \<and>
     hd (lineageNodes s) = \<lparr>node_proof = S, level = 0, isOrphan = None\<rparr> \<and>
     originalImageHash (node_proof (last (lineageNodes s))) = Some (currentHash s) \<and>
     curLevel s = length (lineageNodes s) \<and>
     length (lineageNodes s) = Suc (length (lookups s)) \<and>
     map level (lineageNodes s) = [0..<length (lineageNodes s)] \<and>
     (\<forall>n\<in>set (lineageNodes s). isOrphan n = None \<and>
        (\<exists>h. originalImageHash (node_proof n) = Some h \<and> h \<noteq> [] \<and> h \<in> visitedHashes s)) \<and>
     distinct (map (\<lambda>n. originalImageHash (node_proof n)) (lineageNodes s))"

section \<open>Concrete inputs\<close>

text \<open>
  Records and lookup services on which the walk is run below. \<open>mk_proof\<close> builds a
  stored record from an identifier and its two hashes.
\<close>

definition mk_proof :: "string \<Rightarrow> string option \<Rightarrow> string option \<Rightarrow> ProofRecord" where
  "mk_proof i oh th =
     \<lparr> proofId = Some i, imageName = Some i, originalImageHash = oh,
       transformedImageHash = th, proofData = [], publicValues = [],
       ipfsMetadataUri = [], ipfsImageUri = None, timestamp = None \<rparr>"

definition S_h1 :: ProofRecord where
  "S_h1 = mk_proof ''S'' (Some ''h1'') None"

definition P_h0_h1 :: ProofRecord where
  "P_h0_h1 = mk_proof ''P'' (Some ''h0'') (Some ''h1'')"

definition chain_lookup :: "string \<Rightarrow> LookupOutcome" where
  "chain_lookup h = (if h = ''h1'' then Returns True (Some [P_h0_h1]) else Returns True (Some []))"

definition chain_nodes :: "LineageNode list" where
  "chain_nodes =
     [\<lparr>node_proof = S_h1, level = 0, isOrphan = None\<rparr>,
      \<lparr>node_proof = P_h0_h1, level = 1, isOrphan = None\<rparr>,
      \<lparr>node_proof = createOrphanProof ''h0'' ''Private Image'', level = 2, isOrphan = Some True\<rparr>]"

text \<open>A lookup service that always answers \<^verbatim>\<open>{ success: false }\<close>.\<close>

definition failing_lookup :: "string \<Rightarrow> LookupOutcome" where
  "failing_lookup h = Returns False None"

text \<open>A hook state before the first run, and the loop state at the first pass for \<open>S_h1\<close>.\<close>

definition hook0 :: HookState where
  "hook0 = \<lparr>lineage = [], loading = True, error = None\<rparr>"

definition state_h1 :: WalkState where
  "state_h1 = \<lparr>lineageNodes = [\<lparr>node_proof = S_h1, level = 0, isOrphan = None\<rparr>],
               visitedHashes = {''h1''}, currentHash = ''h1'', curLevel = 1,
               foundParent = False, lookups = []\<rparr>"

definition state_h0 :: WalkState where
  "state_h0 = \<lparr>lineageNodes = [\<lparr>node_proof = S_h1, level = 0, isOrphan = None\<rparr>,
                               \<lparr>node_proof = P_h0_h1, level = 1, isOrphan = None\<rparr>],
               visitedHashes = {''h1'', ''h0''}, currentHash = ''h0'', curLevel = 2,
               foundParent = True, lookups = [''h1'']\<rparr>"

text \<open>
  A producer of \<open>h1\<close> without an original hash, and a producer of \<open>h1\<close> whose original
  hash is \<open>h1\<close> itself.
\<close>

definition P_none_h1 :: ProofRecord where
  "P_none_h1 = mk_proof ''P'' None (Some ''h1'')"

definition headless_lookup :: "string \<Rightarrow> LookupOutcome" where
  "headless_lookup h = Returns True (Some [P_none_h1])"

definition P_h1_h1 :: ProofRecord where
  "P_h1_h1 = mk_proof ''P'' (Some ''h1'') (Some ''h1'')"

definition selfloop_lookup :: "string \<Rightarrow> LookupOutcome" where
  "selfloop_lookup h = Returns True (Some [P_h1_h1])"

text \<open>A service whose only record has nothing to do with the hash asked for.\<close>

definition U_x_y :: ProofRecord where
  "U_x_y = mk_proof ''U'' (Some ''x'') (Some ''y'')"

definition unrelated_lookup :: "string \<Rightarrow> LookupOutcome" where
  "unrelated_lookup h = Returns True (Some [U_x_y])"

text \<open>
  Two records that produce each other's original hash, and two starting proofs with
  original hash \<open>hA\<close>: one without a transformed hash, one whose transformed hash is \<open>hB\<close>.
\<close>

definition S_hA :: ProofRecord where
  "S_hA = mk_proof ''S'' (Some ''hA'') None"

definition S_hA_hB :: ProofRecord where
  "S_hA_hB = mk_proof ''S'' (Some ''hA'') (Some ''hB'')"

definition R_hB_hA :: ProofRecord where
  "R_hB_hA = mk_proof ''R1'' (Some ''hB'') (Some ''hA'')"

definition R_hA_hB :: ProofRecord where
  "R_hA_hB = mk_proof ''R2'' (Some ''hA'') (Some ''hB'')"

definition cycle_lookup :: "string \<Rightarrow> LookupOutcome" where
  "cycle_lookup h =
     (if h = ''hA'' then Returns True (Some [R_hB_hA])
      else if h = ''hB'' then Returns True (Some [R_hA_hB])
      else Returns True (Some []))"

text \<open>A starting proof with original hash \<open>h1\<close> whose transformed hash is \<open>h0\<close>.\<close>

definition S_h1_h0 :: ProofRecord where
  "S_h1_h0 = mk_proof ''S'' (Some ''h1'') (Some ''h0'')"

section \<open>Reasoning about the loop\<close>

lemma loop_rule:
  assumes run: "traverse_loop f s = Some r"
    and init: "I s"
    and step: "\<And>s s'. I s \<Longrightarrow> currentHash s \<noteq> [] \<Longrightarrow> loop_body f s = Continue s' \<Longrightarrow> I s'"
    and brk: "\<And>s s'. I s \<Longrightarrow> currentHash s \<noteq> [] \<Longrightarrow> loop_body f s = Break s' \<Longrightarrow> Q (Inr s')"
    and thr: "\<And>s. I s \<Longrightarrow> currentHash s \<noteq> [] \<Longrightarrow> loop_body f s = Thrown \<Longrightarrow> Q (Inl LookupRejected)"
    and ex: "\<And>s. I s \<Longrightarrow> currentHash s = [] \<Longrightarrow> Q (Inr s)"
  shows "Q r"
proof -
  have "f = f \<longrightarrow> I s \<longrightarrow> Q r"
  proof (rule traverse_loop.raw_induct[where P="\<lambda>g s r. g = f \<longrightarrow> I s \<longrightarrow> Q r", OF _ run],
      goal_cases)
    case (1 loop g s r)
    show ?case
    proof (intro impI)
      assume gf: "g = f" and Is: "I s"
      show "Q r"
      proof (cases "currentHash s = []")
        case True
        with 1(2) have "r = Inr s" by simp
        with ex[OF Is True] show ?thesis by simp
      next
        case False
        show ?thesis
        proof (cases "loop_body f s")
          case Thrown
          with 1(2) False gf have "r = Inl LookupRejected" by simp
          with thr[OF Is False Thrown] show ?thesis by simp
        next
          case (Break s')
          with 1(2) False gf have "r = Inr s'" by simp
          with brk[OF Is False Break] show ?thesis by simp
        next
          case (Continue s')
          with 1(2) False gf have "loop f s' = Some r" by simp
          from 1(1)[OF this] step[OF Is False Continue] show ?thesis by simp
        qed
      qed
    qed
  qed
  with init show ?thesis by simp
qed


lemma loop_body_Continue:
  assumes "loop_body f s = Continue s'"
  obtains p oh d where
    "f (currentHash s) = Returns True (Some d)"
    "List.find (\<lambda>p. transformedImageHash p = Some (currentHash s)) d = Some p"
    "originalImageHash p = Some oh" "oh \<noteq> []" "oh \<notin> visitedHashes s"
    "s' = \<lparr>lineageNodes = lineageNodes s @ [\<lparr>node_proof = p, level = curLevel s, isOrphan = None\<rparr>],
           visitedHashes = add_if_truthy (transformedImageHash p) (insert oh (visitedHashes s)),
           currentHash = oh, curLevel = Suc (curLevel s), foundParent = True,
           lookups = lookups s @ [currentHash s]\<rparr>"
  using assms
  by (auto simp: loop_body_def Let_def push_def
      split: LookupOutcome.splits option.splits list.splits if_splits)

lemma loop_body_Break:
  assumes "loop_body f s = Break s'" and "currentHash s \<noteq> []"
  shows "lookups s' = lookups s @ [currentHash s] \<and> visitedHashes s' = visitedHashes s \<and>
         curLevel s' = curLevel s \<and> currentHash s' = currentHash s \<and>
         ((foundParent s' \<and>
           (\<exists>p oh. originalImageHash p = Some oh \<and> oh \<noteq> [] \<and>
              lineageNodes s' =
                lineageNodes s @ [\<lparr>node_proof = p, level = curLevel s, isOrphan = Some True\<rparr>]))
          \<or> (\<not> foundParent s' \<and> lineageNodes s' = lineageNodes s))"
  using assms
  by (auto simp: loop_body_def Let_def push_def createOrphanProof_def
      split: LookupOutcome.splits option.splits list.splits if_splits)

lemma add_if_truthy_mono: "V \<subseteq> add_if_truthy h V"
  by (auto simp: add_if_truthy_def split: option.splits)

lemma walk_inv_init:
  assumes "originalImageHash S = Some h" and "h \<noteq> []"
  shows "walk_inv S \<lparr>lineageNodes = [\<lparr>node_proof = S, level = 0, isOrphan = None\<rparr>],
           visitedHashes = add_if_truthy (transformedImageHash S)
                             (add_if_truthy (originalImageHash S) {}),
           currentHash = h, curLevel = 1, foundParent = False, lookups = []\<rparr>"
proof -
  have "h \<in> add_if_truthy (originalImageHash S) {}"
    using assms by (simp add: add_if_truthy_def)
  then have "h \<in> add_if_truthy (transformedImageHash S) (add_if_truthy (originalImageHash S) {})"
    using add_if_truthy_mono by blast
  then show ?thesis
    using assms by (simp add: walk_inv_def)
qed

lemma walk_inv_step:
  assumes inv: "walk_inv S s" and body: "loop_body f s = Continue s'"
  shows "walk_inv S s'"
proof -
  from body obtain p oh d where
    oh: "originalImageHash p = Some oh" "oh \<noteq> []" "oh \<notin> visitedHashes s" and
    s': "s' = \<lparr>lineageNodes = lineageNodes s @ [\<lparr>node_proof = p, level = curLevel s, isOrphan = None\<rparr>],
           visitedHashes = add_if_truthy (transformedImageHash p) (insert oh (visitedHashes s)),
           currentHash = oh, curLevel = Suc (curLevel s), foundParent = True,
           lookups = lookups s @ [currentHash s]\<rparr>"
    by (rule loop_body_Continue)
  have sub: "insert oh (visitedHashes s) \<subseteq> visitedHashes s'"
    unfolding s' using add_if_truthy_mono by simp
  have fresh: "Some oh \<notin> (\<lambda>n. originalImageHash (node_proof n)) ` set (lineageNodes s)"
    using inv oh(3) by (auto simp: walk_inv_def)
  have "\<forall>n\<in>set (lineageNodes s'). isOrphan n = None \<and>
        (\<exists>h. originalImageHash (node_proof n) = Some h \<and> h \<noteq> [] \<and> h \<in> visitedHashes s')"
  proof
    fix n assume "n \<in> set (lineageNodes s')"
    then consider "n \<in> set (lineageNodes s)"
      | "n = \<lparr>node_proof = p, level = curLevel s, isOrphan = None\<rparr>"
      by (auto simp: s')
    then show "isOrphan n = None \<and>
        (\<exists>h. originalImageHash (node_proof n) = Some h \<and> h \<noteq> [] \<and> h \<in> visitedHashes s')"
    proof cases
      case 1
      with inv obtain h where "isOrphan n = None"
        "originalImageHash (node_proof n) = Some h" "h \<noteq> []" "h \<in> visitedHashes s"
        unfolding walk_inv_def by blast
      with sub show ?thesis by auto
    next
      case 2
      with oh sub show ?thesis by auto
    qed
  qed
  moreover have "distinct (map (\<lambda>n. originalImageHash (node_proof n)) (lineageNodes s'))"
    using inv fresh oh(1) by (simp add: s' walk_inv_def)
  moreover have "hd (lineageNodes s') = \<lparr>node_proof = S, level = 0, isOrphan = None\<rparr>"
    using inv by (simp add: s' walk_inv_def)
  moreover have "map level (lineageNodes s') = [0..<length (lineageNodes s')]"
    using inv by (simp add: s' walk_inv_def)
  moreover have "currentHash s' \<noteq> [] \<and> lineageNodes s' \<noteq> [] \<and>
     originalImageHash (node_proof (last (lineageNodes s'))) = Some (currentHash s') \<and>
     curLevel s' = length (lineageNodes s') \<and>
     length (lineageNodes s') = Suc (length (lookups s'))"
    using inv oh by (simp add: s' walk_inv_def)
  ultimately show ?thesis
    unfolding walk_inv_def by blast
qed

lemma loop_exit:
  assumes run: "traverse_loop f s0 = Some (Inr s')" and init: "walk_inv S s0"
  shows "\<exists>s. walk_inv S s \<and> loop_body f s = Break s'"
proof -
  define Q where
    "Q = (\<lambda>r. case r of Inl (e::failure) \<Rightarrow> True | Inr t \<Rightarrow> \<exists>s. walk_inv S s \<and> loop_body f s = Break t)"
  have "Q (Inr s')"
  proof (rule loop_rule[where I = "walk_inv S" and Q = Q, OF run init])
    show "\<And>s s'. walk_inv S s \<Longrightarrow> currentHash s \<noteq> [] \<Longrightarrow> loop_body f s = Continue s' \<Longrightarrow> walk_inv S s'"
      by (rule walk_inv_step)
  qed (auto simp: walk_inv_def Q_def)
  then show ?thesis by (simp add: Q_def)
qed


lemma backfill_found: "foundParent s \<Longrightarrow> backfill s = s"
  by (simp add: backfill_def Let_def split: list.splits option.splits)

lemma walk_inv_last_level:
  assumes "walk_inv S s"
  shows "level (last (lineageNodes s)) = length (lineageNodes s) - 1"
proof -
  from assms have ne: "lineageNodes s \<noteq> []"
    and lv: "map level (lineageNodes s) = [0..<length (lineageNodes s)]"
    by (simp_all add: walk_inv_def)
  have "level (last (lineageNodes s)) = last (map level (lineageNodes s))"
    using ne by (simp add: last_map)
  also have "\<dots> = last [0..<length (lineageNodes s)]"
    by (simp only: lv)
  also have "\<dots> = length (lineageNodes s) - 1"
    using ne by (simp add: last_upt)
  finally show ?thesis .
qed

lemma backfill_not_found:
  assumes inv: "walk_inv S s" and nf: "\<not> foundParent t"
    and same: "lineageNodes t = lineageNodes s"
  shows "backfill t =
           push \<lparr>node_proof = createOrphanProof (currentHash s) ''Unknown Parent Image'',
                 level = length (lineageNodes s), isOrphan = Some True\<rparr> t"
proof -
  from inv have ne: "lineageNodes s \<noteq> []"
    and la: "originalImageHash (node_proof (last (lineageNodes s))) = Some (currentHash s)"
    and ch: "currentHash s \<noteq> []"
    by (simp_all add: walk_inv_def)
  from ne have len: "Suc (length (lineageNodes s) - 1) = length (lineageNodes s)"
    by (cases "lineageNodes s") simp_all
  from ne same have "backfill t =
      (case originalImageHash (node_proof (last (lineageNodes s))) of
         None \<Rightarrow> t
       | Some oh \<Rightarrow>
           if \<not> foundParent t \<and> oh \<noteq> [] then
             push \<lparr>node_proof = createOrphanProof oh ''Unknown Parent Image'',
                   level = level (last (lineageNodes s)) + 1, isOrphan = Some True\<rparr> t
           else t)"
    by (cases "lineageNodes s") (auto simp: backfill_def Let_def split: option.splits)
  also have "\<dots> = push \<lparr>node_proof = createOrphanProof (currentHash s) ''Unknown Parent Image'',
                 level = length (lineageNodes s), isOrphan = Some True\<rparr> t"
    using la ch nf len walk_inv_last_level[OF inv] by simp
  finally show ?thesis .
qed

lemma fetchLineage_try_shape:
  assumes run: "fetchLineage_try f S = Some (Inr (nodes, calls))"
  shows "(\<not> truthy (originalImageHash S) \<and>
            nodes = [\<lparr>node_proof = S, level = 0, isOrphan = None\<rparr>] \<and> calls = [])
         \<or> (\<exists>s p oh. walk_inv S s \<and> originalImageHash p = Some oh \<and> oh \<noteq> [] \<and>
               nodes = lineageNodes s @
                 [\<lparr>node_proof = p, level = length (lineageNodes s), isOrphan = Some True\<rparr>] \<and>
               calls = lookups s @ [currentHash s])"
proof (cases "truthy (originalImageHash S)")
  case False
  with run show ?thesis
    by (auto simp: fetchLineage_try_def traverseLineage_def truthy_def split: option.splits)
next
  case True
  then obtain h where h: "originalImageHash S = Some h" "h \<noteq> []"
    by (auto simp: truthy_def split: option.splits)
  let ?s0 = "\<lparr>lineageNodes = [\<lparr>node_proof = S, level = 0, isOrphan = None\<rparr>],
           visitedHashes = add_if_truthy (transformedImageHash S)
                             (add_if_truthy (originalImageHash S) {}),
           currentHash = h, curLevel = 1, foundParent = False, lookups = []\<rparr>"
  from run h obtain t where t: "traverse_loop f ?s0 = Some (Inr t)"
    and res: "nodes = lineageNodes (backfill t)" "calls = lookups (backfill t)"
    by (auto simp: fetchLineage_try_def traverseLineage_def Let_def
        split: option.splits sum.splits)
  from loop_exit[OF t walk_inv_init[OF h]] obtain s where
    inv: "walk_inv S s" and body: "loop_body f s = Break t"
    by blast
  from inv have ch: "currentHash s \<noteq> []" and lv: "curLevel s = length (lineageNodes s)"
    by (simp_all add: walk_inv_def)
  note brk = loop_body_Break[OF body ch]
  show ?thesis
  proof (cases "foundParent t")
    case True
    with brk obtain p oh where "originalImageHash p = Some oh" "oh \<noteq> []"
      "lineageNodes t = lineageNodes s @ [\<lparr>node_proof = p, level = curLevel s, isOrphan = Some True\<rparr>]"
      by blast
    with inv brk res lv show ?thesis
      by (auto simp: backfill_found[OF True])
  next
    case False
    with brk have same: "lineageNodes t = lineageNodes s" by blast
    have "originalImageHash (createOrphanProof (currentHash s) ''Unknown Parent Image'')
            = Some (currentHash s)"
      by (simp add: createOrphanProof_def)
    with inv ch brk res show ?thesis
      by (auto simp: backfill_not_found[OF inv False same] push_def same)
  qed
qed

subsection \<open>Termination on a finite store\<close>

lemma Continue_grows:
  assumes "loop_body f s = Continue s'"
  shows "currentHash s' \<in> returned_hashes f \<and> currentHash s' \<notin> visitedHashes s \<and>
         currentHash s' \<in> visitedHashes s' \<and> visitedHashes s \<subset> visitedHashes s'"
proof -
  from assms obtain p oh d where
    f: "f (currentHash s) = Returns True (Some d)"
    and p: "List.find (\<lambda>p. transformedImageHash p = Some (currentHash s)) d = Some p"
    and oh: "originalImageHash p = Some oh" "oh \<notin> visitedHashes s"
    and s': "s' = \<lparr>lineageNodes = lineageNodes s @ [\<lparr>node_proof = p, level = curLevel s, isOrphan = None\<rparr>],
           visitedHashes = add_if_truthy (transformedImageHash p) (insert oh (visitedHashes s)),
           currentHash = oh, curLevel = Suc (curLevel s), foundParent = True,
           lookups = lookups s @ [currentHash s]\<rparr>"
    by (rule loop_body_Continue)
  from p have "p \<in> set d"
    by (auto simp: find_Some_iff)
  with f oh have "oh \<in> returned_hashes f"
    unfolding returned_hashes_def by blast
  moreover have "insert oh (visitedHashes s) \<subseteq> visitedHashes s'"
    unfolding s' using add_if_truthy_mono by simp
  ultimately show ?thesis
    using oh(2) by (auto simp: s')
qed

lemma traverse_loop_terminates:
  assumes fin: "finite (returned_hashes f)"
  shows "\<exists>r. traverse_loop f s = Some r"
proof (induction "card (returned_hashes f - visitedHashes s)" arbitrary: s rule: less_induct)
  case less
  show ?case
  proof (cases "currentHash s = []")
    case True
    then show ?thesis by (subst traverse_loop.simps) simp
  next
    case False
    show ?thesis
    proof (cases "loop_body f s")
      case Thrown
      with False show ?thesis by (subst traverse_loop.simps) simp
    next
      case (Break s')
      with False show ?thesis by (subst traverse_loop.simps) simp
    next
      case (Continue s')
      from Continue_grows[OF Continue]
      have "returned_hashes f - visitedHashes s' \<subset> returned_hashes f - visitedHashes s"
        by blast
      with fin have "card (returned_hashes f - visitedHashes s')
                      < card (returned_hashes f - visitedHashes s)"
        by (intro psubset_card_mono) simp_all
      from less[OF this] obtain r where "traverse_loop f s' = Some r" by blast
      with False Continue show ?thesis by (subst traverse_loop.simps) simp
    qed
  qed
qed

subsection \<open>A lookup that throws\<close>

lemma loop_body_cong:
  "g (currentHash s) = f (currentHash s) \<Longrightarrow> loop_body g s = loop_body f s"
  by (simp add: loop_body_def Let_def)

lemma loop_body_Throws: "f (currentHash s) = Throws \<Longrightarrow> loop_body f s = Thrown"
  by (simp add: loop_body_def Let_def)

lemma loop_body_lookups:
  assumes "loop_body f s = Continue s' \<or> loop_body f s = Break s'" and "currentHash s \<noteq> []"
  shows "lookups s' = lookups s @ [currentHash s]"
  using assms loop_body_Break[of f s s'] by (auto elim: loop_body_Continue)

lemma loop_throw_override:
  assumes run: "traverse_loop f s = Some (Inr s')"
    and h: "h \<in> set (lookups s')" "h \<notin> set (lookups s)"
  shows "traverse_loop (f(h := Throws)) s = Some (Inl LookupRejected)"
proof -
  let ?g = "f(h := Throws)"
  define I where "I = (\<lambda>t::WalkState. (h \<notin> set (lookups t) \<and> traverse_loop ?g t = traverse_loop ?g s)
                          \<or> traverse_loop ?g s = Some (Inl LookupRejected))"
  define Q where "Q = (\<lambda>r. case r of Inl (e::failure) \<Rightarrow> True
      | Inr (t::WalkState) \<Rightarrow> h \<in> set (lookups t) \<longrightarrow> traverse_loop ?g s = Some (Inl LookupRejected))"
  have at_h: "traverse_loop ?g t = Some (Inl LookupRejected)"
    if "currentHash t = h" "currentHash t \<noteq> []" for t
  proof -
    have "loop_body ?g t = Thrown" using that by (simp add: loop_body_Throws)
    with that show ?thesis by (subst traverse_loop.simps) simp
  qed
  have other: "loop_body ?g t = loop_body f t" if "currentHash t \<noteq> h" for t
    using that by (intro loop_body_cong) simp
  have "Q (Inr s')"
  proof (rule loop_rule[where I = I and Q = Q, OF run])
    show "I s" using h(2) by (simp add: I_def)
  next
    fix t t' assume It: "I t" and ne: "currentHash t \<noteq> []" and body: "loop_body f t = Continue t'"
    show "I t'"
    proof (cases "traverse_loop ?g s = Some (Inl LookupRejected)")
      case True then show ?thesis by (simp add: I_def)
    next
      case False
      with It have nh: "h \<notin> set (lookups t)" and eq: "traverse_loop ?g t = traverse_loop ?g s"
        by (simp_all add: I_def)
      from False eq at_h[OF _ ne] have neq: "currentHash t \<noteq> h" by auto
      from body other[OF neq] have "loop_body ?g t = Continue t'" by simp
      with ne have "traverse_loop ?g t = traverse_loop ?g t'"
        by (subst traverse_loop.simps) simp
      moreover from loop_body_lookups[of f t t'] body ne nh neq have "h \<notin> set (lookups t')"
        by auto
      ultimately show ?thesis using eq by (simp add: I_def)
    qed
  next
    fix t t' assume It: "I t" and ne: "currentHash t \<noteq> []" and body: "loop_body f t = Break t'"
    show "Q (Inr t')"
    proof (cases "traverse_loop ?g s = Some (Inl LookupRejected)")
      case True then show ?thesis by (simp add: Q_def)
    next
      case False
      with It have nh: "h \<notin> set (lookups t)" and eq: "traverse_loop ?g t = traverse_loop ?g s"
        by (simp_all add: I_def)
      from False eq at_h[OF _ ne] have neq: "currentHash t \<noteq> h" by auto
      from loop_body_lookups[of f t t'] body ne nh neq have "h \<notin> set (lookups t')"
        by auto
      then show ?thesis by (simp add: Q_def)
    qed
  next
    fix t assume "I t" "currentHash t \<noteq> []" "loop_body f t = Thrown"
    show "Q (Inl LookupRejected)" by (simp add: Q_def)
  next
    fix t assume It: "I t" and "currentHash t = []"
    then show "Q (Inr t)" by (auto simp: Q_def I_def)
  qed
  with h(1) show ?thesis by (simp add: Q_def)
qed

lemma fetchLineage_try_throw_override:
  assumes run: "fetchLineage_try f S = Some (Inr (nodes, calls))" and h: "h \<in> set calls"
  shows "fetchLineage_try (f(h := Throws)) S = Some (Inl LookupRejected)"
proof (cases "truthy (originalImageHash S)")
  case False
  with run h show ?thesis
    by (auto simp: fetchLineage_try_def traverseLineage_def truthy_def split: option.splits)
next
  case True
  then obtain x where x: "originalImageHash S = Some x" "x \<noteq> []"
    by (auto simp: truthy_def split: option.splits)
  let ?s0 = "\<lparr>lineageNodes = [\<lparr>node_proof = S, level = 0, isOrphan = None\<rparr>],
           visitedHashes = add_if_truthy (transformedImageHash S)
                             (add_if_truthy (originalImageHash S) {}),
           currentHash = x, curLevel = 1, foundParent = False, lookups = []\<rparr>"
  from run x obtain t where t: "traverse_loop f ?s0 = Some (Inr t)"
    and res: "calls = lookups (backfill t)"
    by (auto simp: fetchLineage_try_def traverseLineage_def Let_def
        split: option.splits sum.splits)
  have "lookups (backfill t) = lookups t"
    by (simp add: backfill_def Let_def push_def split: list.splits option.splits)
  with res h have "h \<in> set (lookups t)" by simp
  from loop_throw_override[OF t this] have "traverse_loop (f(h := Throws)) ?s0 = Some (Inl LookupRejected)"
    by simp
  with x show ?thesis
    by (simp add: fetchLineage_try_def traverseLineage_def Let_def)
qed

lemma loop_no_records:
  assumes "currentHash s \<noteq> []" and "f (currentHash s) = Returns success data"
    and "\<not> success \<or> data = None \<or> data = Some []"
  shows "traverse_loop f s =
           Some (Inr (stopped_with
             \<lparr>node_proof = createOrphanProof (currentHash s) ''Private Image'',
              level = curLevel s, isOrphan = Some True\<rparr> s))"
proof -
  from assms have "loop_body f s =
      Break (stopped_with
             \<lparr>node_proof = createOrphanProof (currentHash s) ''Private Image'',
              level = curLevel s, isOrphan = Some True\<rparr> s)"
    by (auto simp: loop_body_def Let_def push_def)
  with assms(1) show ?thesis by (subst traverse_loop.simps) simp
qed

subsection \<open>A lookup that reports failure\<close>

lemma loop_unfold_Continue:
  assumes "currentHash t \<noteq> []" and "loop_body f t = Continue t'"
  shows "traverse_loop f t = traverse_loop f t'"
  using assms by (subst traverse_loop.simps) simp

lemma loop_unfold_Break:
  assumes "currentHash t \<noteq> []" and "loop_body f t = Break t'"
  shows "traverse_loop f t = Some (Inr t')"
  using assms by (subst traverse_loop.simps) simp

lemma loop_extends:
  assumes run: "traverse_loop f u = Some (Inr s')"
  shows "\<exists>ns cs. lineageNodes s' = lineageNodes u @ ns \<and> lookups s' = lookups u @ cs"
proof -
  define I where "I = (\<lambda>t::WalkState.
      \<exists>ns cs. lineageNodes t = lineageNodes u @ ns \<and> lookups t = lookups u @ cs)"
  define Q where "Q = (\<lambda>r. case r of Inl (e::failure) \<Rightarrow> True | Inr (t::WalkState) \<Rightarrow> I t)"
  have "Q (Inr s')"
  proof (rule loop_rule[where I = I and Q = Q, OF run])
    show "I u" by (simp add: I_def)
  next
    fix t t' assume "I t" "currentHash t \<noteq> []" "loop_body f t = Continue t'"
    then show "I t'" by (auto simp: I_def elim!: loop_body_Continue)
  next
    fix t t' assume "I t" "currentHash t \<noteq> []" "loop_body f t = Break t'"
    with loop_body_Break[of f t t'] show "Q (Inr t')" by (auto simp: I_def Q_def)
  next
    fix t assume "I t" "currentHash t \<noteq> []" "loop_body f t = Thrown"
    show "Q (Inl LookupRejected)" by (simp add: Q_def)
  next
    fix t assume "I t" "currentHash t = []"
    then show "Q (Inr t)" by (simp add: Q_def)
  qed
  then show ?thesis by (simp add: Q_def I_def)
qed

lemma loop_extends_first:
  assumes run: "traverse_loop f u = Some (Inr s')" and ne: "currentHash u \<noteq> []"
  shows "\<exists>ns cs. lineageNodes s' = lineageNodes u @ ns \<and>
                 lookups s' = lookups u @ currentHash u # cs"
proof (cases "loop_body f u")
  case Thrown
  with run ne show ?thesis by (subst (asm) traverse_loop.simps) simp
next
  case (Break t')
  with run ne have "s' = t'" by (subst (asm) traverse_loop.simps) simp
  with loop_body_Break[OF Break ne] show ?thesis by auto
next
  case (Continue t')
  with run ne have "traverse_loop f t' = Some (Inr s')"
    by (subst (asm) traverse_loop.simps) simp
  from loop_extends[OF this] obtain ns cs where
    "lineageNodes s' = lineageNodes t' @ ns" "lookups s' = lookups t' @ cs" by blast
  moreover from Continue have "\<exists>n. lineageNodes t' = lineageNodes u @ [n]"
    "lookups t' = lookups u @ [currentHash u]"
    by (auto elim!: loop_body_Continue)
  ultimately show ?thesis by auto
qed

lemma loop_call_state:
  assumes run: "traverse_loop f s0 = Some (Inr s')" and init: "walk_inv S s0"
    and h: "h \<in> set (lookups s')" "h \<notin> set (lookups s0)"
    and agree: "\<And>x. x \<noteq> h \<Longrightarrow> g x = f x"
  shows "\<exists>u. walk_inv S u \<and> currentHash u = h \<and> h \<notin> set (lookups u) \<and>
             traverse_loop f u = Some (Inr s') \<and> traverse_loop g s0 = traverse_loop g u"
proof -
  define Found where "Found \<longleftrightarrow> (\<exists>u. walk_inv S u \<and> currentHash u = h \<and> h \<notin> set (lookups u) \<and>
             traverse_loop f u = Some (Inr s') \<and> traverse_loop g s0 = traverse_loop g u)"
  define I where "I = (\<lambda>t::WalkState. walk_inv S t \<and> traverse_loop f t = Some (Inr s') \<and>
      ((h \<notin> set (lookups t) \<and> traverse_loop g s0 = traverse_loop g t) \<or> Found))"
  define Q where "Q = (\<lambda>r. case r of Inl (e::failure) \<Rightarrow> True
      | Inr (t::WalkState) \<Rightarrow> h \<in> set (lookups t) \<longrightarrow> Found)"
  have at_h: "Found" if "walk_inv S t" "traverse_loop f t = Some (Inr s')"
    "h \<notin> set (lookups t)" "traverse_loop g s0 = traverse_loop g t" "currentHash t = h" for t
    unfolding Found_def using that by blast
  have other: "loop_body g t = loop_body f t" if "currentHash t \<noteq> h" for t
    using that agree by (intro loop_body_cong) simp
  have "Q (Inr s')"
  proof (rule loop_rule[where I = I and Q = Q, OF run])
    show "I s0" using init run h(2) by (simp add: I_def)
  next
    fix t t' assume It: "I t" and ne: "currentHash t \<noteq> []" and body: "loop_body f t = Continue t'"
    from It have inv: "walk_inv S t" and ft: "traverse_loop f t = Some (Inr s')"
      by (simp_all add: I_def)
    have inv': "walk_inv S t'" using inv body by (rule walk_inv_step)
    have ft': "traverse_loop f t' = Some (Inr s')"
      using ft loop_unfold_Continue[OF ne body] by simp
    show "I t'"
    proof (cases Found)
      case True with inv' ft' show ?thesis by (simp add: I_def)
    next
      case False
      with It have nh: "h \<notin> set (lookups t)" and eq: "traverse_loop g s0 = traverse_loop g t"
        by (simp_all add: I_def)
      from False at_h[OF inv ft nh eq] have neq: "currentHash t \<noteq> h" by blast
      from body other[OF neq] have "loop_body g t = Continue t'" by simp
      from loop_unfold_Continue[OF ne this] eq have "traverse_loop g s0 = traverse_loop g t'"
        by simp
      moreover from body nh neq have "h \<notin> set (lookups t')"
        by (auto elim!: loop_body_Continue)
      ultimately show ?thesis using inv' ft' by (simp add: I_def)
    qed
  next
    fix t t' assume It: "I t" and ne: "currentHash t \<noteq> []" and body: "loop_body f t = Break t'"
    from It have inv: "walk_inv S t" and ft: "traverse_loop f t = Some (Inr s')"
      by (simp_all add: I_def)
    show "Q (Inr t')"
    proof (cases Found)
      case True then show ?thesis by (simp add: Q_def)
    next
      case False
      with It have nh: "h \<notin> set (lookups t)" and eq: "traverse_loop g s0 = traverse_loop g t"
        by (simp_all add: I_def)
      from False at_h[OF inv ft nh eq] have neq: "currentHash t \<noteq> h" by blast
      with loop_body_Break[OF body ne] nh have "h \<notin> set (lookups t')" by auto
      then show ?thesis by (simp add: Q_def)
    qed
  next
    fix t assume "I t" "currentHash t \<noteq> []" "loop_body f t = Thrown"
    show "Q (Inl LookupRejected)" by (simp add: Q_def)
  next
    fix t assume "I t" and "currentHash t = []"
    then show "Q (Inr t)" by (simp add: I_def walk_inv_def)
  qed
  with h(1) show ?thesis by (simp add: Q_def Found_def)
qed

lemma backfill_extends:
  "lookups (backfill t) = lookups t \<and> (\<exists>ms. lineageNodes (backfill t) = lineageNodes t @ ms)"
  by (simp add: backfill_def Let_def push_def split: list.splits option.splits)

lemma fetchLineage_try_failure_override:
  assumes run: "fetchLineage_try f S = Some (Inr (nodes, calls))" and h: "h \<in> set calls"
  shows "fetchLineage_try (f(h := Returns False data)) S =
           Some (Inr (take (Suc (length (takeWhile (\<lambda>c. c \<noteq> h) calls))) nodes @
                        [\<lparr>node_proof = createOrphanProof h ''Private Image'',
                          level = Suc (length (takeWhile (\<lambda>c. c \<noteq> h) calls)),
                          isOrphan = Some True\<rparr>],
                      take (Suc (length (takeWhile (\<lambda>c. c \<noteq> h) calls))) calls))"
proof (cases "truthy (originalImageHash S)")
  case False
  with run h show ?thesis
    by (auto simp: fetchLineage_try_def traverseLineage_def truthy_def split: option.splits)
next
  case True
  then obtain x where x: "originalImageHash S = Some x" "x \<noteq> []"
    by (auto simp: truthy_def split: option.splits)
  let ?g = "f(h := Returns False data)"
  let ?s0 = "\<lparr>lineageNodes = [\<lparr>node_proof = S, level = 0, isOrphan = None\<rparr>],
           visitedHashes = add_if_truthy (transformedImageHash S)
                             (add_if_truthy (originalImageHash S) {}),
           currentHash = x, curLevel = 1, foundParent = False, lookups = []\<rparr>"
  from run x obtain t where t: "traverse_loop f ?s0 = Some (Inr t)"
    and res: "nodes = lineageNodes (backfill t)" "calls = lookups (backfill t)"
    by (auto simp: fetchLineage_try_def traverseLineage_def Let_def
        split: option.splits sum.splits)
  from res backfill_extends[of t] obtain ms where
    calls: "calls = lookups t" and nodes: "nodes = lineageNodes t @ ms"
    by auto
  from h calls have ht: "h \<in> set (lookups t)" by simp
  have agree: "\<And>y. y \<noteq> h \<Longrightarrow> ?g y = f y" by simp
  have h0: "h \<notin> set (lookups ?s0)" by simp
  from loop_call_state[where g = ?g, OF t walk_inv_init[OF x] ht h0 agree]
  obtain u where inv: "walk_inv S u" and cu: "currentHash u = h" and nh: "h \<notin> set (lookups u)"
    and fu: "traverse_loop f u = Some (Inr t)"
    and gu: "traverse_loop ?g ?s0 = traverse_loop ?g u"
    by blast
  from inv have ne: "currentHash u \<noteq> []" and lv: "curLevel u = length (lineageNodes u)"
    and len: "length (lineageNodes u) = Suc (length (lookups u))"
    by (simp_all add: walk_inv_def)
  from loop_extends_first[OF fu ne] cu obtain ns cs where
    ext: "lineageNodes t = lineageNodes u @ ns" "lookups t = lookups u @ h # cs"
    by auto
  have "takeWhile (\<lambda>c. c \<noteq> h) (lookups u @ h # cs) = lookups u"
    using nh by (subst takeWhile_append2) auto
  then have k: "length (takeWhile (\<lambda>c. c \<noteq> h) calls) = length (lookups u)"
    by (simp add: calls ext)
  have tn: "take (Suc (length (lookups u))) nodes = lineageNodes u"
    using len by (simp add: nodes ext)
  have tc: "take (Suc (length (lookups u))) calls = lookups u @ [h]"
    by (simp add: calls ext)
  have "?g (currentHash u) = Returns False data" using cu by simp
  from loop_no_records[where f = ?g and s = u and success = False and data = data, OF ne this]
    gu cu
  have "traverse_loop ?g ?s0 =
          Some (Inr (stopped_with
             \<lparr>node_proof = createOrphanProof h ''Private Image'',
              level = curLevel u, isOrphan = Some True\<rparr> u))"
    by simp
  with x show ?thesis
    by (simp add: fetchLineage_try_def traverseLineage_def Let_def backfill_found
        k tn tc lv len cu)
qed

subsection \<open>A producer that ends the walk\<close>

lemma loop_visited_producer:
  assumes "currentHash s \<noteq> []" and "f (currentHash s) = Returns True (Some d)"
    and "List.find (\<lambda>p. transformedImageHash p = Some (currentHash s)) d = Some p"
    and "originalImageHash p = Some oh" and "oh \<noteq> []" and "oh \<in> visitedHashes s"
  shows "traverse_loop f s =
           Some (Inr (stopped_with \<lparr>node_proof = p, level = curLevel s, isOrphan = Some True\<rparr> s))"
proof -
  from assms(3) obtain x xs where d: "d = x # xs" by (cases d) auto
  from assms have "loop_body f s =
      Break (stopped_with \<lparr>node_proof = p, level = curLevel s, isOrphan = Some True\<rparr> s)"
    unfolding d by (simp add: loop_body_def Let_def push_def)
  with assms(1) show ?thesis by (subst traverse_loop.simps) simp
qed

lemma loop_headless_producer:
  assumes "currentHash s \<noteq> []" and "f (currentHash s) = Returns True (Some d)"
    and "List.find (\<lambda>p. transformedImageHash p = Some (currentHash s)) d = Some p"
    and "\<not> truthy (originalImageHash p)"
  shows "traverse_loop f s =
           Some (Inr (s\<lparr>foundParent := False, lookups := lookups s @ [currentHash s]\<rparr>))"
proof -
  from assms(3) obtain x xs where d: "d = x # xs" by (cases d) auto
  from assms have "loop_body f s =
      Break (s\<lparr>foundParent := False, lookups := lookups s @ [currentHash s]\<rparr>)"
    unfolding d by (auto simp: loop_body_def Let_def push_def truthy_def split: option.splits)
  with assms(1) show ?thesis by (subst traverse_loop.simps) simp
qed

section \<open>Running the walk on concrete inputs\<close>

lemmas walk_defs =
  fetchLineage_try_def traverseLineage_def traverse_loop.simps loop_body_def backfill_def
  push_def add_if_truthy_def createOrphanProof_def Let_def

lemmas input_defs =
  mk_proof_def S_h1_def P_h0_h1_def chain_lookup_def chain_nodes_def failing_lookup_def
  hook0_def state_h1_def P_none_h1_def headless_lookup_def P_h1_h1_def selfloop_lookup_def
  U_x_y_def unrelated_lookup_def S_hA_def S_hA_hB_def R_hB_hA_def R_hA_hB_def cycle_lookup_def
  S_h1_h0_def state_h0_def

lemma chain_run:
  "fetchLineage_try chain_lookup S_h1 = Some (Inr (chain_nodes, [''h1'', ''h0'']))"
  by (simp add: walk_defs input_defs numeral_2_eq_2)

lemma chain_lookup_finite: "finite (returned_hashes chain_lookup)"
proof -
  have "returned_hashes chain_lookup \<subseteq> {''h0'', ''h1''}"
    by (auto simp: returned_hashes_def chain_lookup_def P_h0_h1_def mk_proof_def
        split: if_splits)
  then show ?thesis by (rule finite_subset) simp
qed

lemma chain_first_pass: "loop_body chain_lookup state_h1 = Continue state_h0"
  by (auto simp: loop_body_def push_def add_if_truthy_def Let_def input_defs numeral_2_eq_2)


section \<open>Failure of a lookup\<close>

text \<open>
  Claim C1, amended. A lookup that throws is fatal: take any completed walk and any hash
  \<open>h\<close> that it looked up; the lookup did not throw there, and had it thrown at \<open>h\<close>,
  everything else being equal, the computation would have failed, \<^verbatim>\<open>setLineage\<close> would not
  have been reached and the hook would hold the error message with its lineage unchanged.
  A lookup that answers \<^verbatim>\<open>success = false\<close> is not fatal. The pass treats it as a hash
  without records: it pushes the "Private Image" placeholder for the current hash at the
  current level and leaves the loop, and nothing is pushed after it. For the whole
  computation: take any completed walk and any hash \<open>h\<close> that it looked up; had the lookup
  answered \<^verbatim>\<open>success = false\<close> at \<open>h\<close>, everything else being equal, the computation would
  have completed with the nodes built before that lookup followed by the placeholder for
  \<open>h\<close>, after the lookups up to \<open>h\<close>, and \<^verbatim>\<open>setLineage\<close> would have received that list with
  no error set.
\<close>

theorem lookup_failure_handling:
  "(fetchLineage_try f S = Some (Inr (nodes, calls)) \<and> h \<in> set calls \<longrightarrow>
      f h \<noteq> Throws \<and>
      fetchLineage_try (f(h := Throws)) S = Some (Inl LookupRejected) \<and>
      fetchLineage (f(h := Throws)) S st =
        Some \<lparr>lineage = lineage st, loading = False,
              error = Some ''Failed to load image lineage''\<rparr>) \<and>
   (currentHash s \<noteq> [] \<and> g (currentHash s) = Returns False data \<longrightarrow>
      traverse_loop g s =
        Some (Inr (stopped_with
          \<lparr>node_proof = createOrphanProof (currentHash s) ''Private Image'',
           level = curLevel s, isOrphan = Some True\<rparr> s)) \<and>
      backfill (stopped_with
          \<lparr>node_proof = createOrphanProof (currentHash s) ''Private Image'',
           level = curLevel s, isOrphan = Some True\<rparr> s)
        = stopped_with
          \<lparr>node_proof = createOrphanProof (currentHash s) ''Private Image'',
           level = curLevel s, isOrphan = Some True\<rparr> s) \<and>
   (fetchLineage_try f S = Some (Inr (nodes, calls)) \<and> h \<in> set calls \<longrightarrow>
      fetchLineage_try (f(h := Returns False data)) S =
        Some (Inr (take (Suc (length (takeWhile (\<lambda>c. c \<noteq> h) calls))) nodes @
                     [\<lparr>node_proof = createOrphanProof h ''Private Image'',
                       level = Suc (length (takeWhile (\<lambda>c. c \<noteq> h) calls)),
                       isOrphan = Some True\<rparr>],
                   take (Suc (length (takeWhile (\<lambda>c. c \<noteq> h) calls))) calls)) \<and>
      fetchLineage (f(h := Returns False data)) S st =
        Some \<lparr>lineage = take (Suc (length (takeWhile (\<lambda>c. c \<noteq> h) calls))) nodes @
                     [\<lparr>node_proof = createOrphanProof h ''Private Image'',
                       level = Suc (length (takeWhile (\<lambda>c. c \<noteq> h) calls)),
                       isOrphan = Some True\<rparr>],
              loading = False, error = None\<rparr>)"
proof (intro conjI impI)
  assume a: "fetchLineage_try f S = Some (Inr (nodes, calls)) \<and> h \<in> set calls"
  then have thr: "fetchLineage_try (f(h := Throws)) S = Some (Inl LookupRejected)"
    using fetchLineage_try_throw_override by blast
  then show "fetchLineage_try (f(h := Throws)) S = Some (Inl LookupRejected)" .
  show "f h \<noteq> Throws"
  proof
    assume "f h = Throws"
    then have "f(h := Throws) = f" by auto
    with thr a show False by simp
  qed
  from thr show "fetchLineage (f(h := Throws)) S st =
        Some \<lparr>lineage = lineage st, loading = False,
              error = Some ''Failed to load image lineage''\<rparr>"
    by (simp add: fetchLineage_def Let_def)
next
  assume "currentHash s \<noteq> [] \<and> g (currentHash s) = Returns False data"
  then show "traverse_loop g s =
        Some (Inr (stopped_with
          \<lparr>node_proof = createOrphanProof (currentHash s) ''Private Image'',
           level = curLevel s, isOrphan = Some True\<rparr> s))"
    using loop_no_records[of s g False data] by simp
  show "backfill (stopped_with
          \<lparr>node_proof = createOrphanProof (currentHash s) ''Private Image'',
           level = curLevel s, isOrphan = Some True\<rparr> s)
        = stopped_with
          \<lparr>node_proof = createOrphanProof (currentHash s) ''Private Image'',
           level = curLevel s, isOrphan = Some True\<rparr> s"
    by (simp add: backfill_found)
next
  assume a: "fetchLineage_try f S = Some (Inr (nodes, calls)) \<and> h \<in> set calls"
  then have ovr: "fetchLineage_try (f(h := Returns False data)) S =
        Some (Inr (take (Suc (length (takeWhile (\<lambda>c. c \<noteq> h) calls))) nodes @
                     [\<lparr>node_proof = createOrphanProof h ''Private Image'',
                       level = Suc (length (takeWhile (\<lambda>c. c \<noteq> h) calls)),
                       isOrphan = Some True\<rparr>],
                   take (Suc (length (takeWhile (\<lambda>c. c \<noteq> h) calls))) calls))"
    using fetchLineage_try_failure_override by blast
  then show "fetchLineage_try (f(h := Returns False data)) S =
        Some (Inr (take (Suc (length (takeWhile (\<lambda>c. c \<noteq> h) calls))) nodes @
                     [\<lparr>node_proof = createOrphanProof h ''Private Image'',
                       level = Suc (length (takeWhile (\<lambda>c. c \<noteq> h) calls)),
                       isOrphan = Some True\<rparr>],
                   take (Suc (length (takeWhile (\<lambda>c. c \<noteq> h) calls))) calls))" .
  from ovr show "fetchLineage (f(h := Returns False data)) S st =
        Some \<lparr>lineage = take (Suc (length (takeWhile (\<lambda>c. c \<noteq> h) calls))) nodes @
                     [\<lparr>node_proof = createOrphanProof h ''Private Image'',
                       level = Suc (length (takeWhile (\<lambda>c. c \<noteq> h) calls)),
                       isOrphan = Some True\<rparr>],
              loading = False, error = None\<rparr>"
    by (simp add: fetchLineage_def Let_def)
qed

theorem lookup_failure_handling_witness:
  "fetchLineage_try chain_lookup S_h1 = Some (Inr (chain_nodes, [''h1'', ''h0''])) \<and>
   chain_lookup ''h0'' \<noteq> Throws \<and>
   fetchLineage_try (chain_lookup(''h0'' := Throws)) S_h1 = Some (Inl LookupRejected) \<and>
   fetchLineage (chain_lookup(''h0'' := Throws)) S_h1 hook0 =
     Some \<lparr>lineage = [], loading = False, error = Some ''Failed to load image lineage''\<rparr> \<and>
   failing_lookup ''h1'' = Returns False None \<and>
   traverse_loop failing_lookup state_h1 =
     Some (Inr (stopped_with
       \<lparr>node_proof = createOrphanProof ''h1'' ''Private Image'', level = 1,
        isOrphan = Some True\<rparr> state_h1)) \<and>
   backfill (stopped_with
       \<lparr>node_proof = createOrphanProof ''h1'' ''Private Image'', level = 1,
        isOrphan = Some True\<rparr> state_h1)
     = stopped_with
       \<lparr>node_proof = createOrphanProof ''h1'' ''Private Image'', level = 1,
        isOrphan = Some True\<rparr> state_h1 \<and>
   fetchLineage_try (chain_lookup(''h0'' := Returns False None)) S_h1 =
     Some (Inr ([\<lparr>node_proof = S_h1, level = 0, isOrphan = None\<rparr>,
                 \<lparr>node_proof = P_h0_h1, level = 1, isOrphan = None\<rparr>,
                 \<lparr>node_proof = createOrphanProof ''h0'' ''Private Image'', level = 2,
                  isOrphan = Some True\<rparr>], [''h1'', ''h0''])) \<and>
   fetchLineage (chain_lookup(''h0'' := Returns False None)) S_h1 hook0 =
     Some \<lparr>lineage = [\<lparr>node_proof = S_h1, level = 0, isOrphan = None\<rparr>,
                       \<lparr>node_proof = P_h0_h1, level = 1, isOrphan = None\<rparr>,
                       \<lparr>node_proof = createOrphanProof ''h0'' ''Private Image'', level = 2,
                        isOrphan = Some True\<rparr>],
           loading = False, error = None\<rparr>"
  using lookup_failure_handling[where f = chain_lookup and S = S_h1 and nodes = chain_nodes
      and calls = "[''h1'', ''h0'']" and h = "''h0''" and st = hook0 and s = state_h1
      and g = failing_lookup and data = None]
    chain_run
  by (simp add: failing_lookup_def state_h1_def hook0_def chain_nodes_def numeral_2_eq_2)

text \<open>
  The claim as stated fails: with a service that answers \<^verbatim>\<open>success = false\<close> the
  computation completes and hands a two-node lineage to \<^verbatim>\<open>setLineage\<close>.
\<close>

theorem failed_lookup_counterexample:
  "failing_lookup ''h1'' = Returns False None \<and>
   fetchLineage_try failing_lookup S_h1 =
     Some (Inr ([\<lparr>node_proof = S_h1, level = 0, isOrphan = None\<rparr>,
                 \<lparr>node_proof = createOrphanProof ''h1'' ''Private Image'', level = 1,
                  isOrphan = Some True\<rparr>], [''h1''])) \<and>
   fetchLineage failing_lookup S_h1 hook0 =
     Some \<lparr>lineage = [\<lparr>node_proof = S_h1, level = 0, isOrphan = None\<rparr>,
                       \<lparr>node_proof = createOrphanProof ''h1'' ''Private Image'', level = 1,
                        isOrphan = Some True\<rparr>],
           loading = False, error = None\<rparr>"
  by (simp add: fetchLineage_def walk_defs input_defs)

section \<open>How a walk ends\<close>

text \<open>
  Claim C2, amended. In a pass whose lookup succeeds with a record whose transformed hash
  is the current hash, take the first such record. If its original hash is present,
  non-empty and already visited, the record itself is pushed with the orphan flag at the
  current level, the loop is left and nothing is pushed after it. If its original hash is
  absent or empty, the loop is left without pushing the record, with \<^verbatim>\<open>foundParent\<close>
  false.
\<close>

theorem producer_with_visited_origin:
  assumes "currentHash s \<noteq> []" and "f (currentHash s) = Returns True (Some d)"
    and "List.find (\<lambda>p. transformedImageHash p = Some (currentHash s)) d = Some p"
  shows "(originalImageHash p = Some oh \<and> oh \<noteq> [] \<and> oh \<in> visitedHashes s \<longrightarrow>
            traverse_loop f s =
              Some (Inr (stopped_with
                \<lparr>node_proof = p, level = curLevel s, isOrphan = Some True\<rparr> s)) \<and>
            backfill (stopped_with \<lparr>node_proof = p, level = curLevel s, isOrphan = Some True\<rparr> s)
              = stopped_with \<lparr>node_proof = p, level = curLevel s, isOrphan = Some True\<rparr> s) \<and>
         (\<not> truthy (originalImageHash p) \<longrightarrow>
            traverse_loop f s =
              Some (Inr (s\<lparr>foundParent := False, lookups := lookups s @ [currentHash s]\<rparr>)))"
  using assms loop_visited_producer[where f = f and s = s and d = d and p = p and oh = oh]
    loop_headless_producer[where f = f and s = s and d = d and p = p]
  by (simp add: backfill_found)

theorem producer_with_visited_origin_witness:
  "traverse_loop selfloop_lookup state_h1 =
     Some (Inr (stopped_with \<lparr>node_proof = P_h1_h1, level = 1, isOrphan = Some True\<rparr> state_h1)) \<and>
   traverse_loop headless_lookup state_h1 =
     Some (Inr (state_h1\<lparr>foundParent := False, lookups := [''h1'']\<rparr>))"
proof -
  have 1: "currentHash state_h1 \<noteq> []" by (simp add: state_h1_def)
  have 2: "selfloop_lookup (currentHash state_h1) = Returns True (Some [P_h1_h1])"
    by (simp add: selfloop_lookup_def)
  have 3: "List.find (\<lambda>p. transformedImageHash p = Some (currentHash state_h1)) [P_h1_h1]
             = Some P_h1_h1"
    by (simp add: state_h1_def P_h1_h1_def mk_proof_def)
  have 4: "headless_lookup (currentHash state_h1) = Returns True (Some [P_none_h1])"
    by (simp add: headless_lookup_def)
  have 5: "List.find (\<lambda>p. transformedImageHash p = Some (currentHash state_h1)) [P_none_h1]
             = Some P_none_h1"
    by (simp add: state_h1_def P_none_h1_def mk_proof_def)
  from producer_with_visited_origin[where f = selfloop_lookup and s = state_h1
        and d = "[P_h1_h1]" and p = P_h1_h1 and oh = "''h1''", OF 1 2 3]
    producer_with_visited_origin[where f = headless_lookup and s = state_h1
        and d = "[P_none_h1]" and p = P_none_h1, OF 1 4 5]
  show ?thesis
    by (simp add: state_h1_def P_h1_h1_def P_none_h1_def mk_proof_def truthy_def)
qed

text \<open>
  The claim as stated fails when the producer has no original hash: the producer is not in
  the result, which ends with the "Unknown Parent Image" placeholder for \<open>h1\<close>.
\<close>

theorem headless_producer_counterexample:
  "headless_lookup ''h1'' = Returns True (Some [P_none_h1]) \<and>
   transformedImageHash P_none_h1 = Some ''h1'' \<and> originalImageHash P_none_h1 = None \<and>
   fetchLineage_try headless_lookup S_h1 =
     Some (Inr ([\<lparr>node_proof = S_h1, level = 0, isOrphan = None\<rparr>,
                 \<lparr>node_proof = createOrphanProof ''h1'' ''Unknown Parent Image'', level = 1,
                  isOrphan = Some True\<rparr>], [''h1'']))"
  by (simp add: walk_defs input_defs)

text \<open>
  Claim C3, amended. When the starting proof has the non-empty original hash \<open>h\<close> and the
  lookup of \<open>h\<close> succeeds with a non-empty list none of whose records has \<open>h\<close> as its
  transformed hash, the result is the starting node followed by the "Unknown Parent
  Image" placeholder for \<open>h\<close> at level 1, after that single lookup.
\<close>

theorem dangling_edge:
  assumes "originalImageHash S = Some h" and "h \<noteq> []"
    and "f h = Returns True (Some d)" and "d \<noteq> []"
    and "\<forall>p\<in>set d. transformedImageHash p \<noteq> Some h"
  shows "fetchLineage_try f S =
           Some (Inr ([\<lparr>node_proof = S, level = 0, isOrphan = None\<rparr>,
                       \<lparr>node_proof = createOrphanProof h ''Unknown Parent Image'', level = 1,
                        isOrphan = Some True\<rparr>], [h]))"
proof -
  from assms(4) obtain x xs where d: "d = x # xs" by (cases d) auto
  from assms(5) have nf: "List.find (\<lambda>p. transformedImageHash p = Some h) (x # xs) = None"
    unfolding d by (simp only: find_None_iff) blast
  let ?s0 = "\<lparr>lineageNodes = [\<lparr>node_proof = S, level = 0, isOrphan = None\<rparr>],
           visitedHashes = add_if_truthy (transformedImageHash S)
                             (add_if_truthy (originalImageHash S) {}),
           currentHash = h, curLevel = 1, foundParent = False, lookups = []\<rparr>"
  have "loop_body f ?s0 = Break (?s0\<lparr>foundParent := False, lookups := [h]\<rparr>)"
    using assms(3) nf by (simp add: loop_body_def Let_def d)
  with assms(2) have "traverse_loop f ?s0 = Some (Inr (?s0\<lparr>foundParent := False, lookups := [h]\<rparr>))"
    by (subst traverse_loop.simps) simp
  with assms(1,2) show ?thesis
    by (simp add: fetchLineage_try_def traverseLineage_def Let_def backfill_def push_def)
qed

theorem dangling_edge_witness:
  "fetchLineage_try unrelated_lookup S_h1 =
     Some (Inr ([\<lparr>node_proof = S_h1, level = 0, isOrphan = None\<rparr>,
                 \<lparr>node_proof = createOrphanProof ''h1'' ''Unknown Parent Image'', level = 1,
                  isOrphan = Some True\<rparr>], [''h1'']))"
  using dangling_edge[where S = S_h1 and h = "''h1''" and f = unrelated_lookup and d = "[U_x_y]"]
  by (simp add: S_h1_def unrelated_lookup_def U_x_y_def mk_proof_def)

text \<open>
  The claim as stated fails: the placeholder is at level 1, one more than the level of the
  starting node, and not at level 2.
\<close>

theorem dangling_edge_counterexample:
  "originalImageHash S_h1 = Some ''h1'' \<and>
   unrelated_lookup ''h1'' = Returns True (Some [U_x_y]) \<and>
   transformedImageHash U_x_y \<noteq> Some ''h1'' \<and>
   fetchLineage_try unrelated_lookup S_h1 =
     Some (Inr ([\<lparr>node_proof = S_h1, level = 0, isOrphan = None\<rparr>,
                 \<lparr>node_proof = createOrphanProof ''h1'' ''Unknown Parent Image'', level = 1,
                  isOrphan = Some True\<rparr>], [''h1''])) \<and>
   fetchLineage_try unrelated_lookup S_h1 \<noteq>
     Some (Inr ([\<lparr>node_proof = S_h1, level = 0, isOrphan = None\<rparr>,
                 \<lparr>node_proof = createOrphanProof ''h1'' ''Unknown Parent Image'', level = 2,
                  isOrphan = Some True\<rparr>], [''h1'']))"
  by (simp add: walk_defs input_defs)

text \<open>
  Claim C4, amended. For a starting proof with original hash \<open>hA\<close> whose transformed hash
  is not \<open>hB\<close>, when the lookup of \<open>hA\<close> returns exactly one record from \<open>hB\<close> to \<open>hA\<close> and
  the lookup of \<open>hB\<close> returns exactly one record from \<open>hA\<close> to \<open>hB\<close>, the walk ends with
  that second record at level 2 flagged as an orphan, after exactly the two lookups.
\<close>

theorem two_cycle:
  assumes "originalImageHash S = Some ''hA''" and "transformedImageHash S \<noteq> Some ''hB''"
    and "f ''hA'' = Returns True (Some [R1])"
    and "originalImageHash R1 = Some ''hB''" and "transformedImageHash R1 = Some ''hA''"
    and "f ''hB'' = Returns True (Some [R2])"
    and "originalImageHash R2 = Some ''hA''" and "transformedImageHash R2 = Some ''hB''"
  shows "fetchLineage_try f S =
           Some (Inr ([\<lparr>node_proof = S, level = 0, isOrphan = None\<rparr>,
                       \<lparr>node_proof = R1, level = 1, isOrphan = None\<rparr>,
                       \<lparr>node_proof = R2, level = 2, isOrphan = Some True\<rparr>],
                      [''hA'', ''hB'']))"
proof -
  have V: "''hB'' \<notin> add_if_truthy (transformedImageHash S) {''hA''}"
    using assms(2) by (auto simp: add_if_truthy_def split: option.splits)
  show ?thesis
    using assms V
    by (simp add: fetchLineage_try_def traverseLineage_def traverse_loop.simps loop_body_def
        backfill_def push_def Let_def numeral_2_eq_2
        add_if_truthy_def[of "Some ''hA''"])
qed

theorem two_cycle_witness:
  "fetchLineage_try cycle_lookup S_hA =
     Some (Inr ([\<lparr>node_proof = S_hA, level = 0, isOrphan = None\<rparr>,
                 \<lparr>node_proof = R_hB_hA, level = 1, isOrphan = None\<rparr>,
                 \<lparr>node_proof = R_hA_hB, level = 2, isOrphan = Some True\<rparr>],
                [''hA'', ''hB'']))"
  using two_cycle[where S = S_hA and f = cycle_lookup and ?R1.0 = R_hB_hA and ?R2.0 = R_hA_hB]
  by (simp add: S_hA_def cycle_lookup_def R_hB_hA_def R_hA_hB_def mk_proof_def)

text \<open>
  The claim as stated fails for a starting proof whose transformed hash is \<open>hB\<close>: that
  hash is in the visited set from the start, so the walk ends after one lookup with its
  last node at level 1.
\<close>

theorem two_cycle_counterexample:
  "originalImageHash S_hA_hB = Some ''hA'' \<and>
   cycle_lookup ''hA'' = Returns True (Some [R_hB_hA]) \<and>
   originalImageHash R_hB_hA = Some ''hB'' \<and> transformedImageHash R_hB_hA = Some ''hA'' \<and>
   cycle_lookup ''hB'' = Returns True (Some [R_hA_hB]) \<and>
   originalImageHash R_hA_hB = Some ''hA'' \<and> transformedImageHash R_hA_hB = Some ''hB'' \<and>
   fetchLineage_try cycle_lookup S_hA_hB =
     Some (Inr ([\<lparr>node_proof = S_hA_hB, level = 0, isOrphan = None\<rparr>,
                 \<lparr>node_proof = R_hB_hA, level = 1, isOrphan = Some True\<rparr>],
                [''hA'']))"
  by (simp add: walk_defs input_defs)

text \<open>
  Claim C8, amended. In a pass whose lookup succeeds with zero records, the placeholder
  named "Private Image", with the current hash as its original hash and no transformed
  hash, is pushed with the orphan flag at the current level, the loop is left and nothing
  is pushed after it. In particular, for a starting proof \<open>S\<close> with original hash \<open>h1\<close>
  whose transformed hash is not \<open>h0\<close>, a lookup of \<open>h1\<close> that returns the single record
  \<open>P\<close> from \<open>h0\<close> to \<open>h1\<close> and a lookup of \<open>h0\<close> that returns no record, the result is
  \<open>S\<close> at level 0, \<open>P\<close> at level 1 and the placeholder for \<open>h0\<close> at level 2.
\<close>

theorem private_image_endpoint:
  "(currentHash s \<noteq> [] \<and> f (currentHash s) = Returns True (Some []) \<longrightarrow>
      traverse_loop f s =
        Some (Inr (stopped_with
          \<lparr>node_proof = createOrphanProof (currentHash s) ''Private Image'',
           level = curLevel s, isOrphan = Some True\<rparr> s)) \<and>
      backfill (stopped_with
          \<lparr>node_proof = createOrphanProof (currentHash s) ''Private Image'',
           level = curLevel s, isOrphan = Some True\<rparr> s)
        = stopped_with
          \<lparr>node_proof = createOrphanProof (currentHash s) ''Private Image'',
           level = curLevel s, isOrphan = Some True\<rparr> s \<and>
      imageName (createOrphanProof (currentHash s) ''Private Image'') = Some ''Private Image'' \<and>
      originalImageHash (createOrphanProof (currentHash s) ''Private Image'')
        = Some (currentHash s) \<and>
      transformedImageHash (createOrphanProof (currentHash s) ''Private Image'') = None) \<and>
   (originalImageHash S = Some ''h1'' \<and> transformedImageHash S \<noteq> Some ''h0'' \<and>
    g ''h1'' = Returns True (Some [P]) \<and>
    transformedImageHash P = Some ''h1'' \<and> originalImageHash P = Some ''h0'' \<and>
    g ''h0'' = Returns True (Some []) \<longrightarrow>
      fetchLineage_try g S =
        Some (Inr ([\<lparr>node_proof = S, level = 0, isOrphan = None\<rparr>,
                    \<lparr>node_proof = P, level = 1, isOrphan = None\<rparr>,
                    \<lparr>node_proof = createOrphanProof ''h0'' ''Private Image'', level = 2,
                     isOrphan = Some True\<rparr>],
                   [''h1'', ''h0''])))"
proof (intro conjI impI)
  assume a: "currentHash s \<noteq> [] \<and> f (currentHash s) = Returns True (Some [])"
  then show "traverse_loop f s =
        Some (Inr (stopped_with
          \<lparr>node_proof = createOrphanProof (currentHash s) ''Private Image'',
           level = curLevel s, isOrphan = Some True\<rparr> s))"
    using loop_no_records[of s f True "Some []"] by simp
  show "backfill (stopped_with
          \<lparr>node_proof = createOrphanProof (currentHash s) ''Private Image'',
           level = curLevel s, isOrphan = Some True\<rparr> s)
        = stopped_with
          \<lparr>node_proof = createOrphanProof (currentHash s) ''Private Image'',
           level = curLevel s, isOrphan = Some True\<rparr> s"
    by (simp add: backfill_found)
next
  assume a: "originalImageHash S = Some ''h1'' \<and> transformedImageHash S \<noteq> Some ''h0'' \<and>
    g ''h1'' = Returns True (Some [P]) \<and>
    transformedImageHash P = Some ''h1'' \<and> originalImageHash P = Some ''h0'' \<and>
    g ''h0'' = Returns True (Some [])"
  have V: "''h0'' \<notin> add_if_truthy (transformedImageHash S) {''h1''}"
    using a by (auto simp: add_if_truthy_def split: option.splits)
  show "fetchLineage_try g S =
        Some (Inr ([\<lparr>node_proof = S, level = 0, isOrphan = None\<rparr>,
                    \<lparr>node_proof = P, level = 1, isOrphan = None\<rparr>,
                    \<lparr>node_proof = createOrphanProof ''h0'' ''Private Image'', level = 2,
                     isOrphan = Some True\<rparr>],
                   [''h1'', ''h0'']))"
    using a V
    by (simp add: fetchLineage_try_def traverseLineage_def traverse_loop.simps loop_body_def
        backfill_def push_def Let_def numeral_2_eq_2 createOrphanProof_def
        add_if_truthy_def[of "Some ''h1''"])
qed (simp_all add: createOrphanProof_def)

theorem private_image_endpoint_witness:
  "traverse_loop chain_lookup (state_h1\<lparr>currentHash := ''h0''\<rparr>) =
     Some (Inr (stopped_with
        \<lparr>node_proof = createOrphanProof ''h0'' ''Private Image'', level = 1,
         isOrphan = Some True\<rparr> (state_h1\<lparr>currentHash := ''h0''\<rparr>))) \<and>
   fetchLineage_try chain_lookup S_h1 =
     Some (Inr ([\<lparr>node_proof = S_h1, level = 0, isOrphan = None\<rparr>,
                 \<lparr>node_proof = P_h0_h1, level = 1, isOrphan = None\<rparr>,
                 \<lparr>node_proof = createOrphanProof ''h0'' ''Private Image'', level = 2,
                  isOrphan = Some True\<rparr>],
                [''h1'', ''h0'']))"
  using private_image_endpoint[where s = "state_h1\<lparr>currentHash := ''h0''\<rparr>" and f = chain_lookup
      and S = S_h1 and g = chain_lookup and P = P_h0_h1]
  by (simp add: state_h1_def chain_lookup_def S_h1_def P_h0_h1_def mk_proof_def)

text \<open>
  The particular case as stated fails for a starting proof whose transformed hash is
  \<open>h0\<close>: that hash is in the visited set from the start, so \<open>P\<close> is pushed as the final
  orphan node at level 1 and \<open>h0\<close> is never looked up.
\<close>

theorem private_image_endpoint_counterexample:
  "originalImageHash S_h1_h0 = Some ''h1'' \<and>
   chain_lookup ''h1'' = Returns True (Some [P_h0_h1]) \<and>
   transformedImageHash P_h0_h1 = Some ''h1'' \<and> originalImageHash P_h0_h1 = Some ''h0'' \<and>
   chain_lookup ''h0'' = Returns True (Some []) \<and>
   fetchLineage_try chain_lookup S_h1_h0 =
     Some (Inr ([\<lparr>node_proof = S_h1_h0, level = 0, isOrphan = None\<rparr>,
                 \<lparr>node_proof = P_h0_h1, level = 1, isOrphan = Some True\<rparr>],
                [''h1'']))"
  by (simp add: walk_defs input_defs)

section \<open>Termination\<close>

text \<open>
  Claim C5. When the lookup service can return only finitely many hashes, the computation
  returns (with a lineage or with the failure of a lookup); every pass that continues
  moves to a hash that was not yet visited and strictly enlarges the visited set.
\<close>

theorem walk_terminates:
  assumes "finite (returned_hashes f)"
  shows "(\<exists>r. fetchLineage_try f S = Some r) \<and>
         (\<forall>s s'. loop_body f s = Continue s' \<longrightarrow>
            currentHash s' \<notin> visitedHashes s \<and> visitedHashes s \<subset> visitedHashes s')"
proof
  show "\<exists>r. fetchLineage_try f S = Some r"
  proof (cases "truthy (originalImageHash S)")
    case False
    then show ?thesis
      by (auto simp: fetchLineage_try_def traverseLineage_def truthy_def split: option.splits)
  next
    case True
    then obtain h where h: "originalImageHash S = Some h" "h \<noteq> []"
      by (auto simp: truthy_def split: option.splits)
    let ?s0 = "\<lparr>lineageNodes = [\<lparr>node_proof = S, level = 0, isOrphan = None\<rparr>],
           visitedHashes = add_if_truthy (transformedImageHash S)
                             (add_if_truthy (originalImageHash S) {}),
           currentHash = h, curLevel = 1, foundParent = False, lookups = []\<rparr>"
    from traverse_loop_terminates[OF assms] obtain r where "traverse_loop f ?s0 = Some r"
      by blast
    with h show ?thesis
      by (cases r) (simp_all add: fetchLineage_try_def traverseLineage_def Let_def)
  qed
  show "\<forall>s s'. loop_body f s = Continue s' \<longrightarrow>
            currentHash s' \<notin> visitedHashes s \<and> visitedHashes s \<subset> visitedHashes s'"
    using Continue_grows by blast
qed

theorem walk_terminates_witness:
  "finite (returned_hashes chain_lookup) \<and>
   fetchLineage_try chain_lookup S_h1 \<noteq> None \<and>
   loop_body chain_lookup state_h1 = Continue state_h0 \<and>
   currentHash state_h0 \<notin> visitedHashes state_h1 \<and>
   visitedHashes state_h1 \<subset> visitedHashes state_h0"
  using walk_terminates[OF chain_lookup_finite, of S_h1] chain_lookup_finite chain_first_pass
  by auto

section \<open>Properties of every completed walk\<close>

text \<open>
  Claim C9. Whenever the computation completes, the returned list is non-empty and its
  first element is the starting proof, unchanged, at level 0 and without the orphan flag;
  the walk only appends after it.
\<close>

theorem first_node_is_start:
  assumes "fetchLineage_try f S = Some (Inr (nodes, calls))"
  shows "\<exists>rest. nodes = \<lparr>node_proof = S, level = 0, isOrphan = None\<rparr> # rest"
proof -
  from fetchLineage_try_shape[OF assms] show ?thesis
  proof (elim disjE exE conjE)
    fix s p oh
    assume inv: "walk_inv S s"
      and nodes: "nodes = lineageNodes s @
         [\<lparr>node_proof = p, level = length (lineageNodes s), isOrphan = Some True\<rparr>]"
    from inv have "lineageNodes s \<noteq> []"
      and "hd (lineageNodes s) = \<lparr>node_proof = S, level = 0, isOrphan = None\<rparr>"
      by (simp_all add: walk_inv_def)
    then obtain rest where "lineageNodes s = \<lparr>node_proof = S, level = 0, isOrphan = None\<rparr> # rest"
      by (cases "lineageNodes s") auto
    with nodes show ?thesis by simp
  qed simp
qed

theorem first_node_is_start_witness:
  "fetchLineage_try chain_lookup S_h1 = Some (Inr (chain_nodes, [''h1'', ''h0''])) \<and>
   chain_nodes \<noteq> [] \<and> hd chain_nodes = \<lparr>node_proof = S_h1, level = 0, isOrphan = None\<rparr>"
proof -
  from first_node_is_start[OF chain_run] obtain rest where
    eq: "chain_nodes = \<lparr>node_proof = S_h1, level = 0, isOrphan = None\<rparr> # rest"
    by blast
  have "chain_nodes \<noteq> []"
    by (subst eq) simp
  moreover have "hd chain_nodes = \<lparr>node_proof = S_h1, level = 0, isOrphan = None\<rparr>"
    by (subst eq) simp
  ultimately show ?thesis using chain_run by blast
qed

text \<open>
  Claim C6. Whenever the computation completes, the node at index \<open>i\<close> of the returned
  list has level \<open>i\<close>; the list has one node for the starting proof and one node for
  each lookup that was made.
\<close>

theorem level_is_position:
  assumes "fetchLineage_try f S = Some (Inr (nodes, calls))"
  shows "(\<forall>i<length nodes. level (nodes ! i) = i) \<and> length nodes = Suc (length calls)"
proof -
  from fetchLineage_try_shape[OF assms]
  have "map level nodes = [0..<length nodes] \<and> length nodes = Suc (length calls)"
    by (auto simp: walk_inv_def)
  moreover have "level (nodes ! i) = i" if "map level nodes = [0..<length nodes]" "i < length nodes" for i
  proof -
    have "level (nodes ! i) = map level nodes ! i" using that(2) by simp
    also have "\<dots> = i" using that by simp
    finally show ?thesis .
  qed
  ultimately show ?thesis by blast
qed

theorem level_is_position_witness:
  "level (chain_nodes ! 2) = 2 \<and> length chain_nodes = 3"
  using level_is_position[OF chain_run] by (simp add: chain_nodes_def)

text \<open>
  Claim C7. Whenever the computation completes, the original hashes of the nodes that are
  not flagged as orphans are pairwise different.
\<close>

theorem no_duplicate_ancestors:
  assumes "fetchLineage_try f S = Some (Inr (nodes, calls))"
  shows "distinct (map (\<lambda>n. originalImageHash (node_proof n))
                    (filter (\<lambda>n. isOrphan n \<noteq> Some True) nodes))"
proof -
  from fetchLineage_try_shape[OF assms] show ?thesis
  proof (elim disjE exE conjE)
    fix s p oh
    assume inv: "walk_inv S s"
      and nodes: "nodes = lineageNodes s @
         [\<lparr>node_proof = p, level = length (lineageNodes s), isOrphan = Some True\<rparr>]"
    from inv have "\<forall>n\<in>set (lineageNodes s). isOrphan n = None"
      and d: "distinct (map (\<lambda>n. originalImageHash (node_proof n)) (lineageNodes s))"
      by (simp_all add: walk_inv_def)
    then have "filter (\<lambda>n. isOrphan n \<noteq> Some True) (lineageNodes s) = lineageNodes s"
      by (simp add: filter_id_conv)
    with nodes d show ?thesis by simp
  qed simp
qed

theorem no_duplicate_ancestors_witness:
  "distinct [originalImageHash S_h1, originalImageHash P_h0_h1]"
  using no_duplicate_ancestors[OF chain_run] by (simp add: chain_nodes_def)

text \<open>
  Claim C10. Whenever the computation completes, every node but the last has no orphan
  flag, so at most one node of the returned list carries the flag and it is the last one.
\<close>

theorem orphan_only_last:
  assumes "fetchLineage_try f S = Some (Inr (nodes, calls))"
  shows "(\<forall>n\<in>set (butlast nodes). isOrphan n = None) \<and>
         length (filter (\<lambda>n. isOrphan n \<noteq> None) nodes) \<le> 1"
proof -
  from fetchLineage_try_shape[OF assms] show ?thesis
  proof (elim disjE exE conjE)
    fix s p oh
    assume inv: "walk_inv S s"
      and nodes: "nodes = lineageNodes s @
         [\<lparr>node_proof = p, level = length (lineageNodes s), isOrphan = Some True\<rparr>]"
    from inv have all: "\<forall>n\<in>set (lineageNodes s). isOrphan n = None"
      by (simp add: walk_inv_def)
    then have "filter (\<lambda>n. isOrphan n \<noteq> None) (lineageNodes s) = []"
      by (simp add: filter_empty_conv)
    with nodes all show ?thesis by (simp add: butlast_append)
  qed simp
qed

theorem orphan_only_last_witness:
  "isOrphan (chain_nodes ! 0) = None \<and> isOrphan (chain_nodes ! 1) = None"
  using orphan_only_last[OF chain_run] by (simp add: chain_nodes_def)

end
